theory Spec2Isabelle
  imports Main "HOL-Library.Monad_Syntax"
begin

section \<open>The closed-island counter of \<^verbatim>\<open>Solution::closedIsland\<close>\<close>

text \<open>
  The routine of \<^verbatim>\<open>corpus/Assignment1/main.cpp\<close> receives a grid by reference, allocates a
  marker matrix \<^verbatim>\<open>visited\<close> of the same dimensions, flood-fills from every border cell and
  then counts one island per flood fill started in the strict interior.

  The grid and the marker are \<^verbatim>\<open>vector<vector<int>>\<close>: lists of rows of integers. The
  recursive lambda \<^verbatim>\<open>dfs\<close> captures \<^verbatim>\<open>grid\<close>, \<^verbatim>\<open>visited\<close>, \<^verbatim>\<open>n\<close> and \<^verbatim>\<open>m\<close> by reference; the
  two matrices form the frame that every call receives and returns, so that a write to
  either of them would be visible in the result. Indexing a vector out of range is undefined
  behaviour in C++; the model returns \<open>None\<close> there. The C++ \<^verbatim>\<open>int\<close> variables \<^verbatim>\<open>n\<close>, \<^verbatim>\<open>m\<close>, \<^verbatim>\<open>i\<close>,
  \<^verbatim>\<open>j\<close> and \<^verbatim>\<open>count\<close> are unbounded integers here: indices stay between \<open>-1\<close> and the
  dimension, and the counter stays below the number of cells, so nothing wraps around as
  long as the grid has fewer than \<open>2^31\<close> cells.
\<close>

type_synonym matrix = "int list list"

record frame =
  grid :: matrix
  visited :: matrix

text \<open>\<^verbatim>\<open>a[i][j]\<close> as a read, \<open>None\<close> when a subscript is out of range.\<close>

definition at :: "matrix \<Rightarrow> int \<Rightarrow> int \<Rightarrow> int option" where
  "at a i j =
     (if 0 \<le> i \<and> i < int (length a) \<and> 0 \<le> j \<and> j < int (length (a ! nat i))
      then Some (a ! nat i ! nat j) else None)"

text \<open>\<^verbatim>\<open>a[i][j] = v\<close>; the source writes only where it has just read.\<close>

definition put :: "matrix \<Rightarrow> int \<Rightarrow> int \<Rightarrow> int \<Rightarrow> matrix" where
  "put a i j v = a[nat i := (a ! nat i)[nat j := v]]"

text \<open>\<^verbatim>\<open>visited[i][j] = 1\<close>, the only assignment to a matrix in the source.\<close>

definition mark :: "frame \<Rightarrow> int \<Rightarrow> int \<Rightarrow> frame" where
  "mark s i j = s\<lparr>visited := put (visited s) i j 1\<rparr>"

subsection \<open>The flood fill\<close>

text \<open>
  \<^verbatim>\<open>dfs(i, j)\<close>: return at once outside the grid, on a water cell or on a marked cell;
  otherwise mark the cell and visit the four neighbours in the order down, up, right,
  left. The disjunction of the source short-circuits, so the marker is read only on a cell
  that is not water. Each later call runs on the frame the earlier one returned.
\<close>

function dfs :: "int \<Rightarrow> int \<Rightarrow> frame \<Rightarrow> int \<Rightarrow> int \<Rightarrow> frame option" where
  "dfs n m s i j =
     (if i < 0 \<or> j < 0 \<or> i \<ge> n \<or> j \<ge> m then Some s
      else (case at (grid s) i j of
        None \<Rightarrow> None
      | Some c \<Rightarrow>
          (if c = 1 then Some s
           else (case at (visited s) i j of
             None \<Rightarrow> None
           | Some v \<Rightarrow>
               (if v \<noteq> 0 then Some s
                else do {
                  s1 \<leftarrow> dfs n m (mark s i j) (i + 1) j;
                  s2 \<leftarrow> dfs n m s1 (i - 1) j;
                  s3 \<leftarrow> dfs n m s2 i (j + 1);
                  dfs n m s3 i (j - 1)
                })))))"
  by pat_completeness auto

text \<open>
  Termination: every recursive call runs on a marker with fewer zero entries, since the
  cell marked was read as zero and the nested calls never add zeros.
\<close>

definition zeros :: "matrix \<Rightarrow> nat" where
  "zeros a = sum_list (map (\<lambda>r. length (filter (\<lambda>x. x = 0) r)) a)"

lemma zeros_row_update:
  "j < length r \<Longrightarrow> r ! j = 0 \<Longrightarrow>
     Suc (length (filter (\<lambda>x. x = 0) (r[j := (1::int)]))) = length (filter (\<lambda>x. x = 0) r)"
proof (induction r arbitrary: j)
  case Nil
  then show ?case by simp
next
  case (Cons x r)
  then show ?case by (cases j) auto
qed

lemma zeros_rows_update:
  "i < length a \<Longrightarrow> Suc (f r') = f (a ! i) \<Longrightarrow>
     Suc (sum_list (map f (a[i := r']))) = sum_list (map f a)"
proof (induction a arbitrary: i)
  case Nil
  then show ?case by simp
next
  case (Cons x a)
  then show ?case by (cases i) auto
qed

lemma zeros_put:
  assumes "at a i j = Some 0"
  shows "Suc (zeros (put a i j 1)) = zeros a"
proof -
  from assms have b: "nat i < length a" "nat j < length (a ! nat i)" "a ! nat i ! nat j = 0"
    by (auto simp: at_def split: if_splits)
  show ?thesis
    unfolding zeros_def put_def
    by (rule zeros_rows_update[OF b(1)]) (rule zeros_row_update[OF b(2,3)])
qed

lemma dfs_zeros_le:
  "dfs_dom (n, m, s, i, j) \<Longrightarrow> dfs n m s i j = Some s' \<Longrightarrow>
     zeros (visited s') \<le> zeros (visited s)"
proof (induction n m s i j arbitrary: s' rule: dfs.pinduct)
  case (1 n m s i j)
  show ?case
  proof (cases "i < 0 \<or> j < 0 \<or> i \<ge> n \<or> j \<ge> m")
    case True
    with "1.prems" "1.hyps" show ?thesis by (simp add: dfs.psimps)
  next
    case False
    note inb = this
    show ?thesis
    proof (cases "\<exists>c. at (grid s) i j = Some c \<and> c \<noteq> 1 \<and> at (visited s) i j = Some 0")
      case False
      with inb "1.prems" "1.hyps" show ?thesis
        by (auto simp: dfs.psimps split: option.splits if_splits)
    next
      case True
      then obtain c where c: "at (grid s) i j = Some c" "c \<noteq> 1" "at (visited s) i j = Some 0"
        by blast
      from inb c "1.prems" "1.hyps" obtain s1 s2 s3 where
        r: "dfs n m (mark s i j) (i + 1) j = Some s1" "dfs n m s1 (i - 1) j = Some s2"
           "dfs n m s2 i (j + 1) = Some s3" "dfs n m s3 i (j - 1) = Some s'"
        by (auto simp: dfs.psimps split: bind_splits)
      have "zeros (visited s1) \<le> zeros (visited (mark s i j))"
        using "1.IH"(1)[OF inb c(1,2) c(3) _ r(1)] by simp
      moreover have "zeros (visited s2) \<le> zeros (visited s1)"
        using "1.IH"(2)[OF inb c(1,2) c(3) _ r(1) r(2)] by simp
      moreover have "zeros (visited s3) \<le> zeros (visited s2)"
        using "1.IH"(3)[OF inb c(1,2) c(3) _ r(1) r(2) r(3)] by simp
      moreover have "zeros (visited s') \<le> zeros (visited s3)"
        using "1.IH"(4)[OF inb c(1,2) c(3) _ r(1) r(2) r(3) r(4)] by simp
      moreover have "zeros (visited (mark s i j)) < zeros (visited s)"
        using zeros_put[OF c(3)] by (simp add: mark_def)
      ultimately show ?thesis by linarith
    qed
  qed
qed

termination dfs
proof (relation "measure (\<lambda>(n, m, s, i, j). zeros (visited s))", goal_cases)
  case 1
  show ?case by simp
next
  case (2 n m s i j c v)
  then show ?case using zeros_put[of "visited s" i j] by (simp add: mark_def)
next
  case (3 n m s i j c v s1)
  then show ?case using zeros_put[of "visited s" i j] dfs_zeros_le[of n m "mark s i j" "i + 1" j s1]
    by (simp add: mark_def)
next
  case (4 n m s i j c v s1 s2)
  then show ?case using zeros_put[of "visited s" i j] dfs_zeros_le[of n m "mark s i j" "i + 1" j s1]
      dfs_zeros_le[of n m s1 "i - 1" j s2]
    by (simp add: mark_def)
next
  case (5 n m s i j c v s1 s2 s3)
  then show ?case using zeros_put[of "visited s" i j] dfs_zeros_le[of n m "mark s i j" "i + 1" j s1]
      dfs_zeros_le[of n m s1 "i - 1" j s2] dfs_zeros_le[of n m s2 i "j + 1" s3]
    by (simp add: mark_def)
qed

declare dfs.simps [simp del]

subsection \<open>The two passes\<close>

text \<open>A \<^verbatim>\<open>for\<close> loop over a range of indices, its body acting on the loop's state.\<close>

primrec for_each :: "('a \<Rightarrow> 's \<Rightarrow> 's option) \<Rightarrow> 'a list \<Rightarrow> 's \<Rightarrow> 's option" where
  "for_each body [] s = Some s"
| "for_each body (x # xs) s = body x s \<bind> for_each body xs"

text \<open>The guard \<^verbatim>\<open>grid[i][j] == 0 && !visited[i][j]\<close> of all five call sites.\<close>

definition unvisited_land :: "frame \<Rightarrow> int \<Rightarrow> int \<Rightarrow> bool option" where
  "unvisited_land s i j =
     (case at (grid s) i j of
        None \<Rightarrow> None
      | Some c \<Rightarrow>
          (if c = 0 then (case at (visited s) i j of None \<Rightarrow> None | Some v \<Rightarrow> Some (v = 0))
           else Some False))"

text \<open>Step 1: the first and last cell of every row, then of every column.\<close>

definition mark_border_cell :: "int \<Rightarrow> int \<Rightarrow> int \<Rightarrow> int \<Rightarrow> frame \<Rightarrow> frame option" where
  "mark_border_cell n m i j s =
     do { b \<leftarrow> unvisited_land s i j; if b then dfs n m s i j else Some s }"

definition mark_border :: "int \<Rightarrow> int \<Rightarrow> frame \<Rightarrow> frame option" where
  "mark_border n m s =
     do {
       s1 \<leftarrow> for_each (\<lambda>i s. mark_border_cell n m i 0 s \<bind> mark_border_cell n m i (m - 1))
              [0..n - 1] s;
       for_each (\<lambda>j s. mark_border_cell n m 0 j s \<bind> mark_border_cell n m (n - 1) j)
         [0..m - 1] s1
     }"

text \<open>Step 2: rows \<open>1..n-2\<close> and columns \<open>1..m-2\<close>, one more island per fill started.\<close>

definition count_cell :: "int \<Rightarrow> int \<Rightarrow> int \<Rightarrow> int \<Rightarrow> frame \<times> int \<Rightarrow> (frame \<times> int) option" where
  "count_cell n m i j sc =
     (case sc of (s, count) \<Rightarrow>
        do {
          b \<leftarrow> unvisited_land s i j;
          if b then do { s' \<leftarrow> dfs n m s i j; Some (s', count + 1) } else Some (s, count)
        })"

definition count_islands :: "int \<Rightarrow> int \<Rightarrow> frame \<Rightarrow> (frame \<times> int) option" where
  "count_islands n m s =
     for_each (\<lambda>i. for_each (\<lambda>j. count_cell n m i j) [1..m - 2]) [1..n - 2] (s, 0)"

text \<open>
  The whole routine. \<^verbatim>\<open>grid[0].size()\<close> on an empty grid is undefined. The result pairs
  the grid as the call leaves it with the returned count.
\<close>

definition closedIsland :: "matrix \<Rightarrow> (matrix \<times> int) option" where
  "closedIsland g =
     (case g of
        [] \<Rightarrow> None
      | row0 # _ \<Rightarrow>
          (let n = int (length g);
               m = int (length row0);
               s0 = \<lparr>grid = g, visited = replicate (nat n) (replicate (nat m) 0)\<rparr>
           in do {
             s1 \<leftarrow> mark_border n m s0;
             (s2, count) \<leftarrow> count_islands n m s1;
             Some (grid s2, count)
           }))"

section \<open>Vocabulary of the specification\<close>

subsection \<open>Grids\<close>

text \<open>A valid grid: at least one row and one column, rectangular, every cell 0 or 1.\<close>

definition rows :: "matrix \<Rightarrow> int" where
  "rows g = int (length g)"

definition cols :: "matrix \<Rightarrow> int" where
  "cols g = int (length (hd g))"

definition valid_grid :: "matrix \<Rightarrow> bool" where
  "valid_grid g \<longleftrightarrow>
     g \<noteq> [] \<and> hd g \<noteq> [] \<and> (\<forall>r\<in>set g. length r = length (hd g) \<and> (\<forall>x\<in>set r. x = 0 \<or> x = 1))"

definition cells :: "int \<Rightarrow> int \<Rightarrow> (int \<times> int) set" where
  "cells n m = {(i, j). 0 \<le> i \<and> i < n \<and> 0 \<le> j \<and> j < m}"

definition shaped :: "int \<Rightarrow> int \<Rightarrow> matrix \<Rightarrow> bool" where
  "shaped n m a \<longleftrightarrow> int (length a) = n \<and> (\<forall>r\<in>set a. int (length r) = m)"

definition binary :: "matrix \<Rightarrow> bool" where
  "binary a \<longleftrightarrow> (\<forall>r\<in>set a. \<forall>x\<in>set r. x = 0 \<or> x = 1)"

definition all_cells :: "int \<Rightarrow> matrix \<Rightarrow> bool" where
  "all_cells x g \<longleftrightarrow> (\<forall>r\<in>set g. \<forall>y\<in>set r. y = x)"

text \<open>Land cells hold 0; a cell is marked when its marker entry is not 0.\<close>

definition land :: "matrix \<Rightarrow> (int \<times> int) set" where
  "land g = {(i, j). at g i j = Some 0}"

definition marked :: "matrix \<Rightarrow> (int \<times> int) set" where
  "marked v = {(i, j). \<exists>x. at v i j = Some x \<and> x \<noteq> 0}"

definition initial :: "matrix \<Rightarrow> frame" where
  "initial g = \<lparr>grid = g, visited = replicate (nat (rows g)) (replicate (nat (cols g)) 0)\<rparr>"

definition border :: "matrix \<Rightarrow> (int \<times> int) set" where
  "border g = {(i, j). i = 0 \<or> i = rows g - 1 \<or> j = 0 \<or> j = cols g - 1}"

definition interior_land :: "matrix \<Rightarrow> (int \<times> int) set" where
  "interior_land g =
     {(i, j). 1 \<le> i \<and> i \<le> rows g - 2 \<and> 1 \<le> j \<and> j \<le> cols g - 2 \<and> at g i j = Some 0}"

subsection \<open>Regions\<close>

text \<open>
  Two cells are adjacent when they differ by one step in one of the four directions. A
  region is connected when any two of its cells are joined by a chain of adjacent cells
  inside it, and maximal when no connected set of land cells properly contains it. A closed
  island is a maximal region that has no border cell and no land path to one.
\<close>

definition neighbours :: "int \<times> int \<Rightarrow> (int \<times> int) set" where
  "neighbours c = (case c of (i, j) \<Rightarrow> {(i + 1, j), (i - 1, j), (i, j + 1), (i, j - 1)})"

definition adjacent_in :: "(int \<times> int) set \<Rightarrow> ((int \<times> int) \<times> (int \<times> int)) set" where
  "adjacent_in R = {(c, d). c \<in> R \<and> d \<in> R \<and> d \<in> neighbours c}"

definition connected_land :: "matrix \<Rightarrow> (int \<times> int) set \<Rightarrow> bool" where
  "connected_land g R \<longleftrightarrow>
     R \<noteq> {} \<and> R \<subseteq> land g \<and> (\<forall>c\<in>R. \<forall>d\<in>R. (c, d) \<in> (adjacent_in R)\<^sup>*)"

definition maximal_region :: "matrix \<Rightarrow> (int \<times> int) set \<Rightarrow> bool" where
  "maximal_region g R \<longleftrightarrow>
     connected_land g R \<and> (\<forall>R'. connected_land g R' \<and> R \<subseteq> R' \<longrightarrow> R' = R)"

definition closed_island :: "matrix \<Rightarrow> (int \<times> int) set \<Rightarrow> bool" where
  "closed_island g R \<longleftrightarrow>
     maximal_region g R \<and> R \<inter> border g = {} \<and>
     (\<forall>c\<in>R. \<forall>b\<in>border g. (c, b) \<notin> (adjacent_in (land g))\<^sup>*)"

text \<open>The same regions as equivalence classes of reachability through land.\<close>

definition land_adj :: "matrix \<Rightarrow> ((int \<times> int) \<times> (int \<times> int)) set" where
  "land_adj g = {(c, d). c \<in> land g \<and> d \<in> land g \<and> d \<in> neighbours c}"

definition region :: "matrix \<Rightarrow> int \<times> int \<Rightarrow> (int \<times> int) set" where
  "region g c = {d \<in> land g. (c, d) \<in> (land_adj g)\<^sup>*}"

definition closed_islands :: "matrix \<Rightarrow> (int \<times> int) set set" where
  "closed_islands g = {R. (\<exists>c\<in>land g. R = region g c) \<and> R \<inter> border g = {}}"

subsection \<open>Invariants of the traversal\<close>

text \<open>
  What one call \<open>dfs\<close> at \<open>c\<close> achieves from marker \<open>v\<close> to marker \<open>v'\<close>: nothing is
  unmarked, \<open>c\<close> is marked if it is land, and every newly marked cell is land, is reachable
  from \<open>c\<close> through land, and has all its land neighbours marked.
\<close>

definition flood_post :: "matrix \<Rightarrow> int \<times> int \<Rightarrow> matrix \<Rightarrow> matrix \<Rightarrow> bool" where
  "flood_post g c v v' \<longleftrightarrow>
     marked v \<subseteq> marked v' \<and>
     (c \<in> land g \<longrightarrow> c \<in> marked v') \<and>
     (\<forall>x\<in>marked v' - marked v.
        x \<in> land g \<and> neighbours x \<inter> land g \<subseteq> marked v' \<and> (c, x) \<in> (land_adj g)\<^sup>*)"

definition closed_under :: "matrix \<Rightarrow> (int \<times> int) set \<Rightarrow> bool" where
  "closed_under g V \<longleftrightarrow> V \<subseteq> land g \<and> (\<forall>x\<in>V. neighbours x \<inter> land g \<subseteq> V)"

definition sound :: "int \<Rightarrow> int \<Rightarrow> matrix \<Rightarrow> frame \<Rightarrow> bool" where
  "sound n m g s \<longleftrightarrow>
     grid s = g \<and> shaped n m (visited s) \<and> closed_under g (marked (visited s))"

definition tally :: "matrix \<Rightarrow> frame \<times> int \<Rightarrow> bool" where
  "tally g sc \<longleftrightarrow>
     (case sc of (s, count) \<Rightarrow>
        sound (rows g) (cols g) g s \<and> land g \<inter> border g \<subseteq> marked (visited s) \<and>
        count = int (card {R \<in> closed_islands g. R \<subseteq> marked (visited s)}))"

subsection \<open>Example grids\<close>

definition ring3 :: matrix where
  "ring3 = [[1,1,1],[1,0,1],[1,1,1]]"

definition grid2 :: matrix where
  "grid2 = [[0,0,1,0,0],[0,1,0,1,0],[0,1,1,1,0],[0,0,0,0,0]]"

definition grid5 :: matrix where
  "grid5 = [[1,1,1,1,1,1,1,0],[1,0,0,0,0,1,1,0],[1,0,1,0,1,1,1,0],[1,0,0,0,0,1,0,1],[1,1,1,1,1,1,1,0]]"

definition land3 :: matrix where
  "land3 = [[0,0,0],[0,0,0],[0,0,0]]"

definition water3 :: matrix where
  "water3 = [[1,1,1],[1,1,1],[1,1,1]]"

definition two_rows :: matrix where
  "two_rows = [[1,0,1],[1,1,0]]"

section \<open>Properties of the model\<close>

subsection \<open>Reading and writing matrices\<close>

lemma at_shaped:
  "shaped n m a \<Longrightarrow> at a i j = (if (i, j) \<in> cells n m then Some (a ! nat i ! nat j) else None)"
  by (auto simp: shaped_def at_def cells_def)

lemma shaped_put: "shaped n m a \<Longrightarrow> shaped n m (put a i j v)"
proof -
  assume a: "shaped n m a"
  have "r \<in> set (put a i j v) \<Longrightarrow> int (length r) = m" for r
  proof -
    assume "r \<in> set (put a i j v)"
    then have "r \<in> insert ((a ! nat i)[nat j := v]) (set a)"
      unfolding put_def using set_update_subset_insert by fastforce
    moreover have "nat i < length a \<Longrightarrow> int (length (a ! nat i)) = m"
      using a by (simp add: shaped_def)
    moreover have "\<not> nat i < length a \<Longrightarrow> put a i j v = a"
      by (simp add: put_def list_update_beyond)
    ultimately show ?thesis using a \<open>r \<in> set (put a i j v)\<close>
      by (cases "nat i < length a") (auto simp: shaped_def)
  qed
  with a show ?thesis by (simp add: shaped_def put_def)
qed

lemma at_put:
  "at a i j \<noteq> None \<Longrightarrow>
     at (put a i j v) k l = (if k = i \<and> l = j then Some v else at a k l)"
  by (auto simp: at_def put_def nth_list_update split: if_splits)

lemma marked_put:
  "at a i j \<noteq> None \<Longrightarrow> marked (put a i j 1) = insert (i, j) (marked a)"
  by (auto simp: marked_def at_put split: if_splits)

lemma land_binary:
  assumes "binary g" "at g i j = Some c" "c \<noteq> 1"
  shows "(i, j) \<in> land g"
proof -
  from assms(2) have "nat i < length g" "nat j < length (g ! nat i)" "c = g ! nat i ! nat j"
    by (auto simp: at_def split: if_splits)
  then have "c = 0 \<or> c = 1"
    using assms(1) unfolding binary_def by (metis nth_mem)
  with assms show ?thesis by (simp add: land_def)
qed

subsection \<open>One flood fill\<close>

lemma flood_post_skip: "c \<notin> land g \<or> c \<in> marked v \<Longrightarrow> flood_post g c v v"
  by (auto simp: flood_post_def)

lemma flood_post_root:
  assumes "flood_post g d v v'" "x \<in> marked v'" "x \<notin> marked v"
  shows "d \<in> land g"
proof -
  from assms have x: "x \<in> land g" "(d, x) \<in> (land_adj g)\<^sup>*"
    by (auto simp: flood_post_def)
  from x(2) x(1) show ?thesis
    by (cases rule: converse_rtranclE) (auto simp: land_adj_def)
qed

lemma flood_post_rec:
  assumes c: "c \<in> land g"
    and v0: "marked v0 = insert c (marked v)"
    and nb: "neighbours c = {d1, d2, d3, d4}"
    and p1: "flood_post g d1 v0 v1"
    and p2: "flood_post g d2 v1 v2"
    and p3: "flood_post g d3 v2 v3"
    and p4: "flood_post g d4 v3 v4"
  shows "flood_post g c v v4"
proof -
  have mono: "marked v \<subseteq> marked v0" "marked v0 \<subseteq> marked v1" "marked v1 \<subseteq> marked v2"
    "marked v2 \<subseteq> marked v3" "marked v3 \<subseteq> marked v4"
    using v0 p1 p2 p3 p4 by (auto simp: flood_post_def)
  have root: "c \<in> marked v4" using v0 mono by blast
  have nbs: "neighbours c \<inter> land g \<subseteq> marked v4"
  proof -
    have "d1 \<in> land g \<longrightarrow> d1 \<in> marked v4" using p1 mono by (auto simp: flood_post_def)
    moreover have "d2 \<in> land g \<longrightarrow> d2 \<in> marked v4" using p2 mono by (auto simp: flood_post_def)
    moreover have "d3 \<in> land g \<longrightarrow> d3 \<in> marked v4" using p3 mono by (auto simp: flood_post_def)
    moreover have "d4 \<in> land g \<longrightarrow> d4 \<in> marked v4" using p4 by (auto simp: flood_post_def)
    ultimately show ?thesis using nb by auto
  qed
  have sub: "x \<in> land g \<and> neighbours x \<inter> land g \<subseteq> marked v4 \<and> (c, x) \<in> (land_adj g)\<^sup>*"
    if p: "flood_post g d u u'" and x: "x \<in> marked u'" "x \<notin> marked u"
      and d: "d \<in> neighbours c" and u: "marked u' \<subseteq> marked v4" for d u u' x
  proof -
    from p x have a: "x \<in> land g" "neighbours x \<inter> land g \<subseteq> marked u'"
      "(d, x) \<in> (land_adj g)\<^sup>*"
      by (auto simp: flood_post_def)
    have "d \<in> land g" by (rule flood_post_root[OF p x])
    with c d have "(c, d) \<in> land_adj g" by (simp add: land_adj_def)
    then have "(c, x) \<in> (land_adj g)\<^sup>*" using a(3) by (rule converse_rtrancl_into_rtrancl)
    with a u show ?thesis by blast
  qed
  have new: "x \<in> land g \<and> neighbours x \<inter> land g \<subseteq> marked v4 \<and> (c, x) \<in> (land_adj g)\<^sup>*"
    if x: "x \<in> marked v4" "x \<notin> marked v" for x
  proof -
    consider "x = c" | "x \<in> marked v1" "x \<notin> marked v0" | "x \<in> marked v2" "x \<notin> marked v1"
      | "x \<in> marked v3" "x \<notin> marked v2" | "x \<in> marked v4" "x \<notin> marked v3"
      using x v0 by blast
    then show ?thesis
    proof cases
      case 1
      with c nbs show ?thesis by simp
    next
      case 2
      show ?thesis by (rule sub[OF p1 2]) (use nb mono in auto)
    next
      case 3
      show ?thesis by (rule sub[OF p2 3]) (use nb mono in auto)
    next
      case 4
      show ?thesis by (rule sub[OF p3 4]) (use nb mono in auto)
    next
      case 5
      show ?thesis by (rule sub[OF p4 5]) (use nb mono in auto)
    qed
  qed
  show ?thesis
    unfolding flood_post_def using mono root new by blast
qed

lemma dfs_flood:
  "shaped n m (grid s) \<Longrightarrow> binary (grid s) \<Longrightarrow> shaped n m (visited s) \<Longrightarrow>
     \<exists>s'. dfs n m s i j = Some s' \<and> grid s' = grid s \<and> shaped n m (visited s') \<and>
          flood_post (grid s) (i, j) (visited s) (visited s')"
proof (induction n m s i j rule: dfs.induct)
  case (1 n m s i j)
  note shp = "1.prems"
  show ?case
  proof (cases "i < 0 \<or> j < 0 \<or> i \<ge> n \<or> j \<ge> m")
    case True
    then have "(i, j) \<notin> land (grid s)"
      using at_shaped[OF shp(1), of i j] by (auto simp: land_def cells_def)
    with True shp show ?thesis
      by (simp add: dfs.simps[of n m s i j] flood_post_skip)
  next
    case False
    note inb = this
    then have cell: "(i, j) \<in> cells n m" by (simp add: cells_def)
    obtain c where c: "at (grid s) i j = Some c"
      using at_shaped[OF shp(1), of i j] cell by simp
    obtain v where v: "at (visited s) i j = Some v"
      using at_shaped[OF shp(3), of i j] cell by simp
    show ?thesis
    proof (cases "c = 1 \<or> v \<noteq> 0")
      case True
      then have "(i, j) \<notin> land (grid s) \<or> (i, j) \<in> marked (visited s)"
        using c v by (auto simp: land_def marked_def)
      with True inb c v shp show ?thesis
        by (auto simp: dfs.simps[of n m s i j] flood_post_skip)
    next
      case False
      then have c1: "c \<noteq> 1" and v0: "v = 0" by auto
      note v = v[unfolded v0]
      let ?s0 = "mark s i j"
      have g0: "grid ?s0 = grid s" by (simp add: mark_def)
      have s0: "shaped n m (grid ?s0)" "binary (grid ?s0)" "shaped n m (visited ?s0)"
        using shp by (simp_all add: mark_def shaped_put)
      have m0: "marked (visited ?s0) = insert (i, j) (marked (visited s))"
        using v by (simp add: mark_def marked_put)
      from "1.IH"(1)[OF inb c c1 v _ s0] obtain s1 where
        s1: "dfs n m ?s0 (i + 1) j = Some s1" "grid s1 = grid s" "shaped n m (visited s1)"
          "flood_post (grid s) (i + 1, j) (visited ?s0) (visited s1)"
        using g0 by auto
      from "1.IH"(2)[OF inb c c1 v _ s1(1)] s1 shp obtain s2 where
        s2: "dfs n m s1 (i - 1) j = Some s2" "grid s2 = grid s" "shaped n m (visited s2)"
          "flood_post (grid s) (i - 1, j) (visited s1) (visited s2)"
        by auto
      from "1.IH"(3)[OF inb c c1 v _ s1(1) s2(1)] s2 shp obtain s3 where
        s3: "dfs n m s2 i (j + 1) = Some s3" "grid s3 = grid s" "shaped n m (visited s3)"
          "flood_post (grid s) (i, j + 1) (visited s2) (visited s3)"
        by auto
      from "1.IH"(4)[OF inb c c1 v _ s1(1) s2(1) s3(1)] s3 shp obtain s4 where
        s4: "dfs n m s3 i (j - 1) = Some s4" "grid s4 = grid s" "shaped n m (visited s4)"
          "flood_post (grid s) (i, j - 1) (visited s3) (visited s4)"
        by auto
      have res: "dfs n m s i j = Some s4"
        using inb c c1 v s1(1) s2(1) s3(1) s4(1) by (simp add: dfs.simps[of n m s i j])
      have "flood_post (grid s) (i, j) (visited s) (visited s4)"
        by (rule flood_post_rec[OF land_binary[OF shp(2) c c1] m0 _ s1(4) s2(4) s3(4) s4(4)])
          (simp add: neighbours_def)
      with res s4 show ?thesis by simp
    qed
  qed
qed

subsection \<open>Regions as classes of reachability\<close>

lemma neighbours_sym: "d \<in> neighbours c \<Longrightarrow> c \<in> neighbours d"
  by (cases c; cases d) (auto simp: neighbours_def)

lemma land_adj_sym: "(c, d) \<in> land_adj g \<Longrightarrow> (d, c) \<in> land_adj g"
  by (simp add: land_adj_def neighbours_sym)

lemma land_adj_rtrancl_sym: "(c, d) \<in> (land_adj g)\<^sup>* \<Longrightarrow> (d, c) \<in> (land_adj g)\<^sup>*"
proof -
  have "sym (land_adj g)" by (rule symI) (rule land_adj_sym)
  then have "sym ((land_adj g)\<^sup>*)" by (rule sym_rtrancl)
  then show "(c, d) \<in> (land_adj g)\<^sup>* \<Longrightarrow> (d, c) \<in> (land_adj g)\<^sup>*" by (rule symD)
qed

lemma land_adj_rtrancl_land: "(c, d) \<in> (land_adj g)\<^sup>* \<Longrightarrow> c \<in> land g \<Longrightarrow> d \<in> land g"
  by (induction rule: rtrancl_induct) (auto simp: land_adj_def)

lemma region_self: "c \<in> land g \<Longrightarrow> c \<in> region g c"
  by (simp add: region_def)

lemma region_land: "region g c \<subseteq> land g"
  by (auto simp: region_def)

lemma region_empty: "c \<notin> land g \<Longrightarrow> region g c = {}"
proof -
  assume c: "c \<notin> land g"
  have "d \<in> land g \<Longrightarrow> (c, d) \<in> (land_adj g)\<^sup>* \<Longrightarrow> False" for d
    using c land_adj_rtrancl_sym[of c d g] land_adj_rtrancl_land[of d c g] by blast
  then show ?thesis by (auto simp: region_def)
qed

lemma region_root_land: "d \<in> region g c \<Longrightarrow> c \<in> land g"
  using region_empty by fastforce

lemma region_eq:
  assumes "d \<in> region g c"
  shows "region g d = region g c"
proof -
  from assms have cd: "(c, d) \<in> (land_adj g)\<^sup>*" by (simp add: region_def)
  then have dc: "(d, c) \<in> (land_adj g)\<^sup>*" by (rule land_adj_rtrancl_sym)
  show ?thesis
    unfolding region_def using cd dc by (auto intro: rtrancl_trans)
qed

lemma closed_under_region:
  assumes "closed_under g V" "c \<in> V"
  shows "region g c \<subseteq> V"
proof
  fix d assume "d \<in> region g c"
  then have "(c, d) \<in> (land_adj g)\<^sup>*" by (simp add: region_def)
  then show "d \<in> V"
  proof (induction rule: rtrancl_induct)
    case base
    show ?case by (rule assms(2))
  next
    case (step y z)
    then show ?case using assms(1) by (auto simp: closed_under_def land_adj_def)
  qed
qed

lemma closed_under_region_disjoint:
  assumes "closed_under g V" "c \<notin> V"
  shows "region g c \<inter> V = {}"
proof -
  have False if d: "d \<in> region g c" "d \<in> V" for d
  proof -
    have "c \<in> land g" using d(1) by (rule region_root_land)
    then have "c \<in> region g d" using region_eq[OF d(1)] region_self by blast
    with closed_under_region[OF assms(1) d(2)] assms(2) show False by blast
  qed
  then show ?thesis by blast
qed

subsection \<open>A fill started between fills marks exactly one region\<close>

lemma flood_top:
  assumes cu: "closed_under g (marked v)" and fp: "flood_post g c v v'"
  shows "closed_under g (marked v') \<and> marked v' = marked v \<union> region g c"
proof -
  have cu': "closed_under g (marked v')"
    unfolding closed_under_def
  proof (intro conjI subsetI ballI)
    fix x assume "x \<in> marked v'"
    then show "x \<in> land g"
      using cu fp by (cases "x \<in> marked v") (auto simp: closed_under_def flood_post_def)
  next
    fix x y assume x: "x \<in> marked v'" and y: "y \<in> neighbours x \<inter> land g"
    show "y \<in> marked v'"
    proof (cases "x \<in> marked v")
      case True
      with cu y have "y \<in> marked v" by (auto simp: closed_under_def)
      with fp show ?thesis by (auto simp: flood_post_def)
    next
      case False
      with fp x y show ?thesis unfolding flood_post_def by blast
    qed
  qed
  have "marked v' \<subseteq> marked v \<union> region g c"
    using fp by (auto simp: flood_post_def region_def)
  moreover have "marked v \<subseteq> marked v'" using fp by (simp add: flood_post_def)
  moreover have "region g c \<subseteq> marked v'"
  proof (cases "c \<in> land g")
    case True
    with fp have "c \<in> marked v'" by (simp add: flood_post_def)
    then show ?thesis by (rule closed_under_region[OF cu'])
  next
    case False
    then show ?thesis by (simp add: region_empty)
  qed
  ultimately show ?thesis using cu' by blast
qed

lemma unvisited_land_eq:
  assumes "shaped n m (grid s)" "shaped n m (visited s)" "(i, j) \<in> cells n m"
  shows "unvisited_land s i j =
           Some ((i, j) \<in> land (grid s) \<and> (i, j) \<notin> marked (visited s))"
  using assms at_shaped[OF assms(1), of i j] at_shaped[OF assms(2), of i j]
  by (simp add: unvisited_land_def land_def marked_def)

lemma dfs_sound:
  assumes g: "shaped n m g" "binary g" and s: "sound n m g s"
  shows "\<exists>s'. dfs n m s i j = Some s' \<and> sound n m g s' \<and>
           marked (visited s') = marked (visited s) \<union> region g (i, j)"
proof -
  from s have gs: "grid s = g" and vs: "shaped n m (visited s)"
    and cu: "closed_under g (marked (visited s))"
    by (simp_all add: sound_def)
  from dfs_flood[of n m s i j] g gs vs obtain s' where
    s': "dfs n m s i j = Some s'" "grid s' = g" "shaped n m (visited s')"
      "flood_post g (i, j) (visited s) (visited s')"
    by auto
  from flood_top[OF cu s'(4)] s'(1,2,3) show ?thesis by (auto simp: sound_def)
qed

lemma mark_border_cell_sound:
  assumes g: "shaped n m g" "binary g" and s: "sound n m g s" and c: "(i, j) \<in> cells n m"
  shows "\<exists>s'. mark_border_cell n m i j s = Some s' \<and> sound n m g s' \<and>
           marked (visited s') = marked (visited s) \<union> region g (i, j)"
proof (cases "(i, j) \<in> land g \<and> (i, j) \<notin> marked (visited s)")
  case True
  then have "mark_border_cell n m i j s = dfs n m s i j"
    using unvisited_land_eq[of n m s i j] g s c by (simp add: mark_border_cell_def sound_def)
  then show ?thesis using dfs_sound[OF g s, of i j] by simp
next
  case False
  then have r: "mark_border_cell n m i j s = Some s"
    using unvisited_land_eq[of n m s i j] g s c by (auto simp: mark_border_cell_def sound_def)
  have "region g (i, j) \<subseteq> marked (visited s)"
  proof (cases "(i, j) \<in> land g")
    case True
    with False have "(i, j) \<in> marked (visited s)" by simp
    then show ?thesis using closed_under_region s by (simp add: sound_def)
  next
    case False
    then show ?thesis by (simp add: region_empty)
  qed
  with r s show ?thesis by auto
qed

lemma count_cell_sound:
  assumes g: "shaped n m g" "binary g" and s: "sound n m g s" and c: "(i, j) \<in> cells n m"
  shows "\<exists>s'. count_cell n m i j (s, k) =
             Some (s', if (i, j) \<in> land g \<and> (i, j) \<notin> marked (visited s) then k + 1 else k) \<and>
           sound n m g s' \<and> marked (visited s') = marked (visited s) \<union> region g (i, j)"
proof (cases "(i, j) \<in> land g \<and> (i, j) \<notin> marked (visited s)")
  case True
  then have u: "unvisited_land s i j = Some True"
    using unvisited_land_eq[of n m s i j] g s c by (simp add: sound_def)
  from dfs_sound[OF g s, of i j] obtain s' where
    s': "dfs n m s i j = Some s'" "sound n m g s'"
      "marked (visited s') = marked (visited s) \<union> region g (i, j)"
    by blast
  from u s'(1) True have "count_cell n m i j (s, k) = Some (s', k + 1)"
    by (simp add: count_cell_def)
  with True s' show ?thesis by simp
next
  case False
  then have r: "count_cell n m i j (s, k) = Some (s, k)"
    using unvisited_land_eq[of n m s i j] g s c by (auto simp: count_cell_def sound_def)
  have "region g (i, j) \<subseteq> marked (visited s)"
  proof (cases "(i, j) \<in> land g")
    case True
    with False have "(i, j) \<in> marked (visited s)" by simp
    then show ?thesis using closed_under_region s by (simp add: sound_def)
  next
    case False
    then show ?thesis by (simp add: region_empty)
  qed
  with r s False show ?thesis by auto
qed

subsection \<open>The border pass and the counting pass\<close>

lemma for_each_collect:
  assumes "P s"
    and "\<And>x s. x \<in> set xs \<Longrightarrow> P s \<Longrightarrow> \<exists>s'. f x s = Some s' \<and> P s' \<and> M s' = M s \<union> A x"
  shows "\<exists>s'. for_each f xs s = Some s' \<and> P s' \<and> M s' = M s \<union> \<Union>(A ` set xs)"
  using assms
proof (induction xs arbitrary: s)
  case Nil
  then show ?case by simp
next
  case (Cons x xs)
  from Cons.prems(2)[of x s] Cons.prems(1) obtain s1 where
    s1: "f x s = Some s1" "P s1" "M s1 = M s \<union> A x"
    by auto
  from Cons.IH[OF s1(2)] Cons.prems(2) obtain s' where
    s': "for_each f xs s1 = Some s'" "P s'" "M s' = M s1 \<union> \<Union>(A ` set xs)"
    by (metis list.set_intros(2))
  from s1 s' show ?case by auto
qed

lemma valid_grid_shaped:
  assumes "valid_grid g"
  shows "shaped (rows g) (cols g) g"
proof -
  have "int (length r) = cols g" if "r \<in> set g" for r
  proof -
    from assms that have "length r = length (hd g)" unfolding valid_grid_def by blast
    then show ?thesis unfolding cols_def by (rule arg_cong)
  qed
  then show ?thesis unfolding shaped_def rows_def by blast
qed

lemma valid_grid_pos:
  assumes "valid_grid g"
  shows "1 \<le> rows g" and "1 \<le> cols g"
proof -
  from assms have "g \<noteq> []" "hd g \<noteq> []" unfolding valid_grid_def by blast+
  then have "0 < length g" "0 < length (hd g)" by blast+
  then show "1 \<le> rows g" and "1 \<le> cols g" unfolding rows_def cols_def by linarith+
qed

lemma valid_grid_binary: "valid_grid g \<Longrightarrow> binary g"
  unfolding valid_grid_def binary_def by blast

lemma land_cells: "shaped n m g \<Longrightarrow> land g \<subseteq> cells n m"
  using at_shaped[of n m g] by (auto simp: land_def split: if_splits)

lemma finite_cells: "finite (cells n m)"
proof -
  have "cells n m \<subseteq> {0..<n} \<times> {0..<m}" by (auto simp: cells_def)
  then show ?thesis by (rule finite_subset) simp
qed

lemma finite_closed_islands:
  assumes "shaped n m g"
  shows "finite (closed_islands g)"
proof -
  have "finite (land g)"
    by (rule finite_subset[OF land_cells[OF assms] finite_cells])
  then have "finite (region g ` land g)" by (rule finite_imageI)
  moreover have "closed_islands g \<subseteq> region g ` land g"
    unfolding closed_islands_def by blast
  ultimately show ?thesis by (rule rev_finite_subset)
qed

lemma region_subset_or_disjoint:
  assumes "closed_under g V" "d \<in> land g" "region g d \<subseteq> V \<union> region g c"
  shows "region g d = region g c \<or> region g d \<subseteq> V"
proof (cases "d \<in> region g c")
  case True
  then show ?thesis by (simp add: region_eq)
next
  case False
  with assms have "d \<in> V" using region_self by blast
  then show ?thesis using closed_under_region[OF assms(1)] by simp
qed

lemma new_island:
  assumes cu: "closed_under g V" and b: "land g \<inter> border g \<subseteq> V"
    and c: "c \<in> land g" "c \<notin> V"
  shows "{R \<in> closed_islands g. R \<subseteq> V \<union> region g c} =
           insert (region g c) {R \<in> closed_islands g. R \<subseteq> V}"
    and "region g c \<notin> {R \<in> closed_islands g. R \<subseteq> V}"
proof -
  have disj: "region g c \<inter> V = {}" by (rule closed_under_region_disjoint[OF cu c(2)])
  have "region g c \<inter> border g = {}"
    using disj b region_land[of g c] by blast
  with c(1) have ci: "region g c \<in> closed_islands g" by (auto simp: closed_islands_def)
  show "region g c \<notin> {R \<in> closed_islands g. R \<subseteq> V}"
    using region_self[OF c(1)] c(2) by blast
  have "R = region g c \<or> R \<subseteq> V" if R: "R \<in> closed_islands g" "R \<subseteq> V \<union> region g c" for R
  proof -
    from R(1) obtain d where d: "d \<in> land g" "R = region g d"
      by (auto simp: closed_islands_def)
    from region_subset_or_disjoint[OF cu d(1)] R(2) d(2) show ?thesis by simp
  qed
  with ci show "{R \<in> closed_islands g. R \<subseteq> V \<union> region g c} =
           insert (region g c) {R \<in> closed_islands g. R \<subseteq> V}"
    by blast
qed

lemma count_cell_tally:
  assumes g: "valid_grid g" and t: "tally g sc" and c: "(i, j) \<in> cells (rows g) (cols g)"
  shows "\<exists>sc'. count_cell (rows g) (cols g) i j sc = Some sc' \<and> tally g sc' \<and>
           marked (visited (fst sc')) = marked (visited (fst sc)) \<union> region g (i, j)"
proof -
  obtain s k where sc: "sc = (s, k)" by (cases sc)
  let ?V = "marked (visited s)"
  from t sc have s: "sound (rows g) (cols g) g s" and b: "land g \<inter> border g \<subseteq> ?V"
    and k: "k = int (card {R \<in> closed_islands g. R \<subseteq> ?V})"
    by (simp_all add: tally_def)
  from s have cu: "closed_under g ?V" by (simp add: sound_def)
  note shp = valid_grid_shaped[OF g]
  from count_cell_sound[OF shp valid_grid_binary[OF g] s c, of k] obtain s' where
    s': "count_cell (rows g) (cols g) i j (s, k) =
           Some (s', if (i, j) \<in> land g \<and> (i, j) \<notin> ?V then k + 1 else k)"
      "sound (rows g) (cols g) g s'" "marked (visited s') = ?V \<union> region g (i, j)"
    by blast
  have "(if (i, j) \<in> land g \<and> (i, j) \<notin> ?V then k + 1 else k) =
          int (card {R \<in> closed_islands g. R \<subseteq> marked (visited s')})"
  proof (cases "(i, j) \<in> land g \<and> (i, j) \<notin> ?V")
    case True
    have fin: "finite {R \<in> closed_islands g. R \<subseteq> ?V}"
      using finite_closed_islands[OF shp] by simp
    from True new_island[OF cu b, of "(i, j)"] fin k show ?thesis
      by (simp add: s'(3))
  next
    case False
    have "region g (i, j) \<subseteq> ?V"
    proof (cases "(i, j) \<in> land g")
      case True
      with False show ?thesis using closed_under_region[OF cu] by simp
    next
      case False
      then show ?thesis by (simp add: region_empty)
    qed
    then have "marked (visited s') = ?V" using s'(3) by blast
    with False k show ?thesis by simp
  qed
  with s' b sc show ?thesis by (auto simp: tally_def)
qed

lemma count_islands_tally:
  assumes g: "valid_grid g" and t: "tally g (s, 0)"
  shows "\<exists>sc'. count_islands (rows g) (cols g) s = Some sc' \<and> tally g sc' \<and>
           marked (visited (fst sc')) =
             marked (visited s) \<union> (\<Union>i\<in>{1..rows g - 2}. \<Union>j\<in>{1..cols g - 2}. region g (i, j))"
proof -
  let ?n = "rows g" and ?m = "cols g"
  let ?M = "\<lambda>sc :: frame \<times> int. marked (visited (fst sc))"
  let ?row = "\<lambda>i. \<Union>j\<in>set [1..?m - 2]. region g (i, j)"
  have row: "\<exists>sc'. for_each (count_cell ?n ?m i) [1..?m - 2] sc = Some sc' \<and> tally g sc' \<and>
           ?M sc' = ?M sc \<union> ?row i"
    if i: "i \<in> set [1..?n - 2]" and sc: "tally g sc" for i sc
  proof -
    have cell: "\<exists>sc'. count_cell ?n ?m i j sc0 = Some sc' \<and> tally g sc' \<and>
           ?M sc' = ?M sc0 \<union> region g (i, j)"
      if "j \<in> set [1..?m - 2]" "tally g sc0" for j sc0
    proof -
      from that(1) i have "(i, j) \<in> cells ?n ?m" by (simp add: cells_def)
      with count_cell_tally[OF g that(2)] show ?thesis by blast
    qed
    show ?thesis
      by (rule for_each_collect[where P = "tally g" and M = ?M and f = "count_cell ?n ?m i"
            and A = "\<lambda>j. region g (i, j)" and xs = "[1..?m - 2]" and s = sc, OF sc])
        (rule cell)
  qed
  have "\<exists>sc'. for_each (\<lambda>i. for_each (count_cell ?n ?m i) [1..?m - 2]) [1..?n - 2] (s, 0) = Some sc' \<and>
           tally g sc' \<and> ?M sc' = ?M (s, 0) \<union> \<Union>(?row ` set [1..?n - 2])"
    by (rule for_each_collect[where P = "tally g" and M = ?M
          and f = "\<lambda>i. for_each (count_cell ?n ?m i) [1..?m - 2]"
          and A = ?row and xs = "[1..?n - 2]" and s = "(s, 0::int)", OF t])
      (rule row)
  then show ?thesis by (simp add: count_islands_def)
qed

lemma mark_border_pair_sound:
  assumes g: "shaped n m g" "binary g" and s: "sound n m g s"
    and c: "c \<in> cells n m" "d \<in> cells n m"
  shows "\<exists>s'. (mark_border_cell n m (fst c) (snd c) s \<bind> mark_border_cell n m (fst d) (snd d))
             = Some s' \<and> sound n m g s' \<and>
           marked (visited s') = marked (visited s) \<union> (region g c \<union> region g d)"
proof -
  from mark_border_cell_sound[OF g s, of "fst c" "snd c"] c(1) obtain s1 where
    s1: "mark_border_cell n m (fst c) (snd c) s = Some s1" "sound n m g s1"
      "marked (visited s1) = marked (visited s) \<union> region g c"
    by auto
  from mark_border_cell_sound[OF g s1(2), of "fst d" "snd d"] c(2) obtain s2 where
    s2: "mark_border_cell n m (fst d) (snd d) s1 = Some s2" "sound n m g s2"
      "marked (visited s2) = marked (visited s1) \<union> region g d"
    by auto
  from s1 s2 show ?thesis by auto
qed

lemma border_cells_eq:
  assumes "1 \<le> rows g" "1 \<le> cols g"
  shows "(\<Union>i\<in>set [0..rows g - 1]. {(i, 0), (i, cols g - 1)}) \<union>
         (\<Union>j\<in>set [0..cols g - 1]. {(0, j), (rows g - 1, j)}) =
         border g \<inter> cells (rows g) (cols g)"
  using assms by (auto simp: border_def cells_def)

lemma border_regions_eq:
  assumes "1 \<le> rows g" "1 \<le> cols g"
  shows "(\<Union>i\<in>set [0..rows g - 1]. region g (i, 0) \<union> region g (i, cols g - 1)) \<union>
         (\<Union>j\<in>set [0..cols g - 1]. region g (0, j) \<union> region g (rows g - 1, j)) =
         \<Union>(region g ` (border g \<inter> cells (rows g) (cols g)))"
  unfolding border_cells_eq[OF assms, symmetric] by auto

lemma mark_border_sound:
  assumes g: "valid_grid g" and s: "sound (rows g) (cols g) g s"
  shows "\<exists>s'. mark_border (rows g) (cols g) s = Some s' \<and> sound (rows g) (cols g) g s' \<and>
           marked (visited s') =
             marked (visited s) \<union> \<Union>(region g ` (border g \<inter> cells (rows g) (cols g)))"
proof -
  let ?n = "rows g" and ?m = "cols g"
  let ?M = "\<lambda>s :: frame. marked (visited s)"
  let ?A = "\<lambda>i. region g (i, 0) \<union> region g (i, ?m - 1)"
  let ?B = "\<lambda>j. region g (0, j) \<union> region g (?n - 1, j)"
  note shp = valid_grid_shaped[OF g] valid_grid_binary[OF g]
  note pos = valid_grid_pos[OF g]
  have colstep: "\<exists>s'. (mark_border_cell ?n ?m i 0 s0 \<bind> mark_border_cell ?n ?m i (?m - 1)) = Some s' \<and>
           sound ?n ?m g s' \<and> ?M s' = ?M s0 \<union> ?A i"
    if "i \<in> set [0..?n - 1]" "sound ?n ?m g s0" for i s0
  proof -
    from that(1) pos have "(i, 0) \<in> cells ?n ?m" "(i, ?m - 1) \<in> cells ?n ?m"
      by (simp_all add: cells_def)
    from mark_border_pair_sound[OF shp that(2) this] show ?thesis by simp
  qed
  have rowstep: "\<exists>s'. (mark_border_cell ?n ?m 0 j s0 \<bind> mark_border_cell ?n ?m (?n - 1) j) = Some s' \<and>
           sound ?n ?m g s' \<and> ?M s' = ?M s0 \<union> ?B j"
    if "j \<in> set [0..?m - 1]" "sound ?n ?m g s0" for j s0
  proof -
    from that(1) pos have "(0, j) \<in> cells ?n ?m" "(?n - 1, j) \<in> cells ?n ?m"
      by (simp_all add: cells_def)
    from mark_border_pair_sound[OF shp that(2) this] show ?thesis by simp
  qed
  have "\<exists>s'. for_each (\<lambda>i s. mark_border_cell ?n ?m i 0 s \<bind> mark_border_cell ?n ?m i (?m - 1))
              [0..?n - 1] s = Some s' \<and> sound ?n ?m g s' \<and>
            ?M s' = ?M s \<union> \<Union>(?A ` set [0..?n - 1])"
    by (rule for_each_collect[where P = "sound ?n ?m g" and M = ?M and A = ?A
          and f = "\<lambda>i s. mark_border_cell ?n ?m i 0 s \<bind> mark_border_cell ?n ?m i (?m - 1)"
          and xs = "[0..?n - 1]" and s = s, OF s])
      (rule colstep)
  then obtain s1 where
    s1: "for_each (\<lambda>i s. mark_border_cell ?n ?m i 0 s \<bind> mark_border_cell ?n ?m i (?m - 1))
              [0..?n - 1] s = Some s1" "sound ?n ?m g s1"
        "?M s1 = ?M s \<union> \<Union>(?A ` set [0..?n - 1])"
    by blast
  have "\<exists>s'. for_each (\<lambda>j s. mark_border_cell ?n ?m 0 j s \<bind> mark_border_cell ?n ?m (?n - 1) j)
              [0..?m - 1] s1 = Some s' \<and> sound ?n ?m g s' \<and>
            ?M s' = ?M s1 \<union> \<Union>(?B ` set [0..?m - 1])"
    by (rule for_each_collect[where P = "sound ?n ?m g" and M = ?M and A = ?B
          and f = "\<lambda>j s. mark_border_cell ?n ?m 0 j s \<bind> mark_border_cell ?n ?m (?n - 1) j"
          and xs = "[0..?m - 1]" and s = s1, OF s1(2)])
      (rule rowstep)
  then obtain s2 where
    s2: "for_each (\<lambda>j s. mark_border_cell ?n ?m 0 j s \<bind> mark_border_cell ?n ?m (?n - 1) j)
              [0..?m - 1] s1 = Some s2" "sound ?n ?m g s2"
        "?M s2 = ?M s1 \<union> \<Union>(?B ` set [0..?m - 1])"
    by blast
  have res: "mark_border ?n ?m s = Some s2"
    using s1(1) s2(1) by (simp add: mark_border_def)
  have "?M s2 = ?M s \<union> (\<Union>(?A ` set [0..?n - 1]) \<union> \<Union>(?B ` set [0..?m - 1]))"
    unfolding s2(3) s1(3) by (rule Un_assoc)
  then have "?M s2 = ?M s \<union> \<Union>(region g ` (border g \<inter> cells ?n ?m))"
    unfolding border_regions_eq[OF pos] .
  with res s2(2) show ?thesis by blast
qed

lemma marked_initial: "marked (visited (initial g)) = {}"
proof -
  have shp: "shaped (int (nat (rows g))) (int (nat (cols g))) (visited (initial g))"
    by (simp add: initial_def shaped_def)
  have "at (visited (initial g)) i j \<noteq> Some x \<or> x = 0" for i j x
    using at_shaped[OF shp, of i j] by (auto simp: initial_def cells_def)
  then show ?thesis unfolding marked_def by blast
qed

lemma sound_initial:
  assumes "valid_grid g"
  shows "sound (rows g) (cols g) g (initial g)"
proof -
  from valid_grid_pos[OF assms] have "shaped (rows g) (cols g) (visited (initial g))"
    by (simp add: initial_def shaped_def)
  moreover have "grid (initial g) = g" by (simp add: initial_def)
  ultimately show ?thesis
    unfolding sound_def marked_initial closed_under_def by blast
qed

lemma closedIsland_unfold:
  assumes "valid_grid g"
  shows "closedIsland g =
           do {
             s1 \<leftarrow> mark_border (rows g) (cols g) (initial g);
             (s2, count) \<leftarrow> count_islands (rows g) (cols g) s1;
             Some (grid s2, count)
           }"
proof -
  from assms obtain row0 rest where g: "g = row0 # rest"
    unfolding valid_grid_def by (cases g) blast+
  show ?thesis
    unfolding g by (simp add: closedIsland_def initial_def rows_def cols_def Let_def)
qed

lemma border_marked_tally:
  assumes g: "valid_grid g" and s: "sound (rows g) (cols g) g s"
    and m: "marked (visited s) = \<Union>(region g ` (border g \<inter> cells (rows g) (cols g)))"
  shows "tally g (s, 0)"
proof -
  let ?V = "marked (visited s)"
  note lc = land_cells[OF valid_grid_shaped[OF g]]
  have b: "land g \<inter> border g \<subseteq> ?V"
  proof
    fix c assume c: "c \<in> land g \<inter> border g"
    then have "c \<in> border g \<inter> cells (rows g) (cols g)" using lc by blast
    moreover have "c \<in> region g c" using c region_self by blast
    ultimately show "c \<in> ?V" unfolding m by blast
  qed
  have "R \<in> closed_islands g \<Longrightarrow> R \<subseteq> ?V \<Longrightarrow> False" for R
  proof -
    assume R: "R \<in> closed_islands g" "R \<subseteq> ?V"
    then obtain d where d: "d \<in> land g" "R = region g d" "R \<inter> border g = {}"
      unfolding closed_islands_def by blast
    have "d \<in> R" unfolding d(2) using d(1) by (rule region_self)
    with R(2) obtain b where b: "b \<in> border g" "d \<in> region g b" unfolding m by blast
    have "b \<in> land g" using b(2) by (rule region_root_land)
    then have "b \<in> region g b" by (rule region_self)
    then have "b \<in> R" unfolding d(2) region_eq[OF b(2)] .
    with b(1) d(3) show False by blast
  qed
  then have "{R \<in> closed_islands g. R \<subseteq> ?V} = {}" by blast
  then have "(0::int) = int (card {R \<in> closed_islands g. R \<subseteq> ?V})"
    by (simp only: card.empty of_nat_0)
  with s b show ?thesis unfolding tally_def by simp
qed

lemma cell_border_or_interior:
  assumes "(i, j) \<in> cells (rows g) (cols g)"
  shows "(i, j) \<in> border g \<or> (i \<in> {1..rows g - 2} \<and> j \<in> {1..cols g - 2})"
  using assms by (auto simp: cells_def border_def)

lemma closedIsland_islands:
  assumes g: "valid_grid g"
  shows "closedIsland g = Some (g, int (card (closed_islands g)))"
proof -
  let ?n = "rows g" and ?m = "cols g"
  from mark_border_sound[OF g sound_initial[OF g]] obtain s1 where
    s1: "mark_border ?n ?m (initial g) = Some s1" "sound ?n ?m g s1"
      "marked (visited s1) = \<Union>(region g ` (border g \<inter> cells ?n ?m))"
    unfolding marked_initial by auto
  have t1: "tally g (s1, 0)" by (rule border_marked_tally[OF g s1(2,3)])
  from count_islands_tally[OF g t1] obtain s2 k where
    s2: "count_islands ?n ?m s1 = Some (s2, k)" "tally g (s2, k)"
      "marked (visited s2) =
         marked (visited s1) \<union> (\<Union>i\<in>{1..?n - 2}. \<Union>j\<in>{1..?m - 2}. region g (i, j))"
    by auto
  let ?V = "marked (visited s2)"
  from s2(2) have snd: "sound ?n ?m g s2"
    and k: "k = int (card {R \<in> closed_islands g. R \<subseteq> ?V})"
    unfolding tally_def by simp_all
  have "land g \<subseteq> ?V"
  proof
    fix c assume c: "c \<in> land g"
    obtain i j where ij: "c = (i, j)" by (cases c)
    from c land_cells[OF valid_grid_shaped[OF g]] have cell: "(i, j) \<in> cells ?n ?m"
      unfolding ij by blast
    have self: "(i, j) \<in> region g (i, j)" using c unfolding ij by (rule region_self)
    from cell_border_or_interior[OF cell] show "c \<in> ?V"
    proof
      assume "(i, j) \<in> border g"
      with cell self have "(i, j) \<in> marked (visited s1)" unfolding s1(3) by blast
      then show ?thesis unfolding ij s2(3) by blast
    next
      assume "i \<in> {1..?n - 2} \<and> j \<in> {1..?m - 2}"
      with self show ?thesis unfolding ij s2(3) by blast
    qed
  qed
  then have "{R \<in> closed_islands g. R \<subseteq> ?V} = closed_islands g"
    unfolding closed_islands_def using region_land[of g] by blast
  with k have "k = int (card (closed_islands g))" by simp
  moreover have "grid s2 = g" using snd unfolding sound_def by blast
  ultimately show ?thesis
    unfolding closedIsland_unfold[OF g] using s1(1) s2(1) by simp
qed

subsection \<open>The regions are the maximal connected sets of land\<close>

lemma land_adj_adjacent_in: "land_adj g = adjacent_in (land g)"
  by (simp add: land_adj_def adjacent_in_def)

lemma adjacent_in_mono: "R \<subseteq> S \<Longrightarrow> adjacent_in R \<subseteq> adjacent_in S"
  unfolding adjacent_in_def by blast

lemma region_trans:
  assumes "x \<in> region g c" "(x, y) \<in> (land_adj g)\<^sup>*"
  shows "y \<in> region g c"
proof -
  from assms(1) have x: "x \<in> land g" "(c, x) \<in> (land_adj g)\<^sup>*" by (simp_all add: region_def)
  from x(2) assms(2) have "(c, y) \<in> (land_adj g)\<^sup>*" by (rule rtrancl_trans)
  moreover have "y \<in> land g" by (rule land_adj_rtrancl_land[OF assms(2) x(1)])
  ultimately show ?thesis by (simp add: region_def)
qed

lemma region_path_inside:
  assumes "(x, y) \<in> (land_adj g)\<^sup>*" "x \<in> region g c"
  shows "(x, y) \<in> (adjacent_in (region g c))\<^sup>*"
  using assms
proof (induction rule: rtrancl_induct)
  case base
  show ?case by (rule rtrancl.rtrancl_refl)
next
  case (step y z)
  have y: "y \<in> region g c" by (rule region_trans[OF step.prems step.hyps(1)])
  have "(y, z) \<in> (land_adj g)\<^sup>*" using step.hyps(2) by (rule r_into_rtrancl)
  with y have z: "z \<in> region g c" by (rule region_trans)
  from step.hyps(2) have "z \<in> neighbours y" by (simp add: land_adj_def)
  with y z have "(y, z) \<in> adjacent_in (region g c)" by (simp add: adjacent_in_def)
  with step.IH[OF step.prems] show ?case by (rule rtrancl.rtrancl_into_rtrancl)
qed

lemma region_connected:
  assumes "c \<in> land g"
  shows "connected_land g (region g c)"
proof -
  have ne: "region g c \<noteq> {}" using region_self[OF assms] by blast
  have "(x, y) \<in> (adjacent_in (region g c))\<^sup>*" if "x \<in> region g c" "y \<in> region g c" for x y
  proof -
    from that have "(c, x) \<in> (land_adj g)\<^sup>*" "(c, y) \<in> (land_adj g)\<^sup>*"
      by (simp_all add: region_def)
    then have "(x, y) \<in> (land_adj g)\<^sup>*"
      using land_adj_rtrancl_sym[of c x g] by (blast intro: rtrancl_trans)
    then show ?thesis using that(1) by (rule region_path_inside)
  qed
  with ne region_land[of g c] show ?thesis unfolding connected_land_def by blast
qed

lemma connected_in_region:
  assumes R: "connected_land g R" and c: "c \<in> R"
  shows "R \<subseteq> region g c"
proof
  fix d assume d: "d \<in> R"
  from R have sub: "R \<subseteq> land g" unfolding connected_land_def by blast
  from R c d have "(c, d) \<in> (adjacent_in R)\<^sup>*" unfolding connected_land_def by blast
  moreover have "(adjacent_in R)\<^sup>* \<subseteq> (land_adj g)\<^sup>*"
    unfolding land_adj_adjacent_in by (rule rtrancl_mono[OF adjacent_in_mono[OF sub]])
  ultimately have "(c, d) \<in> (land_adj g)\<^sup>*" by blast
  with d sub show "d \<in> region g c" unfolding region_def by blast
qed

lemma maximal_region_iff: "maximal_region g R \<longleftrightarrow> (\<exists>c\<in>land g. R = region g c)"
proof
  assume m: "maximal_region g R"
  then have R: "connected_land g R" unfolding maximal_region_def by blast
  then obtain c where c: "c \<in> R" "c \<in> land g" unfolding connected_land_def by blast
  have "R \<subseteq> region g c" by (rule connected_in_region[OF R c(1)])
  with m region_connected[OF c(2)] have "region g c = R" unfolding maximal_region_def by blast
  with c(2) show "\<exists>c\<in>land g. R = region g c" by blast
next
  assume "\<exists>c\<in>land g. R = region g c"
  then obtain c where c: "c \<in> land g" "R = region g c" by blast
  have "R' = region g c" if R': "connected_land g R'" "region g c \<subseteq> R'" for R'
  proof -
    from region_self[OF c(1)] R'(2) have "c \<in> R'" by blast
    from connected_in_region[OF R'(1) this] R'(2) show ?thesis by blast
  qed
  with region_connected[OF c(1)] show "maximal_region g R"
    unfolding maximal_region_def c(2) by blast
qed

lemma closed_island_iff: "closed_island g R \<longleftrightarrow> R \<in> closed_islands g"
proof
  assume "closed_island g R"
  then show "R \<in> closed_islands g"
    unfolding closed_island_def closed_islands_def maximal_region_iff by blast
next
  assume "R \<in> closed_islands g"
  then obtain c where c: "c \<in> land g" "R = region g c" "R \<inter> border g = {}"
    unfolding closed_islands_def by blast
  have "(x, b) \<notin> (land_adj g)\<^sup>*" if "x \<in> R" "b \<in> border g" for x b
  proof
    assume "(x, b) \<in> (land_adj g)\<^sup>*"
    with that(1) have "b \<in> R" unfolding c(2) by (rule region_trans)
    with that(2) c(3) show False by blast
  qed
  with c show "closed_island g R"
    unfolding closed_island_def maximal_region_iff land_adj_adjacent_in by blast
qed

lemma closed_island_set: "{R. closed_island g R} = closed_islands g"
  using closed_island_iff by blast

subsection \<open>Uniform grids, the interior bound, thin grids\<close>

lemma all_land_cells:
  assumes g: "valid_grid g" and a: "all_cells 0 g"
  shows "land g = cells (rows g) (cols g)"
proof -
  note shp = valid_grid_shaped[OF g]
  have "g ! nat i ! nat j = 0" if "(i, j) \<in> cells (rows g) (cols g)" for i j
  proof -
    from that shp have i: "nat i < length g" unfolding cells_def shaped_def by auto
    then have r: "g ! nat i \<in> set g" by (rule nth_mem)
    with shp that have "nat j < length (g ! nat i)" unfolding cells_def shaped_def by auto
    then have "g ! nat i ! nat j \<in> set (g ! nat i)" by (rule nth_mem)
    with a r show ?thesis unfolding all_cells_def by blast
  qed
  then show ?thesis
    unfolding land_def using at_shaped[OF shp] by (auto split: if_splits)
qed

lemma all_water_land:
  assumes g: "valid_grid g" and a: "all_cells 1 g"
  shows "land g = {}"
proof -
  note shp = valid_grid_shaped[OF g]
  have "g ! nat i ! nat j = 1" if "(i, j) \<in> cells (rows g) (cols g)" for i j
  proof -
    from that shp have i: "nat i < length g" unfolding cells_def shaped_def by auto
    then have r: "g ! nat i \<in> set g" by (rule nth_mem)
    with shp that have "nat j < length (g ! nat i)" unfolding cells_def shaped_def by auto
    then have "g ! nat i ! nat j \<in> set (g ! nat i)" by (rule nth_mem)
    with a r show ?thesis unfolding all_cells_def by blast
  qed
  then show ?thesis
    unfolding land_def using at_shaped[OF shp] by (auto split: if_splits)
qed

lemma column_path:
  assumes l: "land g = cells n m" and j: "0 \<le> j" "j < m"
  shows "int t < n \<Longrightarrow> ((int t, j), (0, j)) \<in> (land_adj g)\<^sup>*"
proof (induction t)
  case 0
  show ?case by simp
next
  case (Suc t)
  from Suc.prems j have "(int (Suc t), j) \<in> land g" "(int t, j) \<in> land g"
    unfolding l cells_def by simp_all
  moreover have "(int t, j) \<in> neighbours (int (Suc t), j)" by (simp add: neighbours_def)
  ultimately have "((int (Suc t), j), (int t, j)) \<in> land_adj g" by (simp add: land_adj_def)
  moreover from Suc.prems have "((int t, j), (0, j)) \<in> (land_adj g)\<^sup>*"
    by (intro Suc.IH) simp
  ultimately show ?case by (rule converse_rtrancl_into_rtrancl)
qed

lemma all_land_no_islands:
  assumes g: "valid_grid g" and a: "all_cells 0 g"
  shows "closed_islands g = {}"
proof -
  note l = all_land_cells[OF g a]
  have False if R: "R \<in> closed_islands g" for R
  proof -
    from R obtain c where c: "c \<in> land g" "R = region g c" "R \<inter> border g = {}"
      unfolding closed_islands_def by blast
    obtain i j where ij: "c = (i, j)" by (cases c)
    from c(1) have b: "0 \<le> i" "i < rows g" "0 \<le> j" "j < cols g"
      unfolding l ij cells_def by simp_all
    from column_path[OF l b(3,4), of "nat i"] b have p: "(c, (0, j)) \<in> (land_adj g)\<^sup>*"
      unfolding ij by simp
    have "(0, j) \<in> R"
      unfolding c(2) by (rule region_trans[OF region_self[OF c(1)] p])
    moreover have "(0, j) \<in> border g" by (simp add: border_def)
    ultimately show False using c(3) by blast
  qed
  then show ?thesis by blast
qed

lemma all_water_no_islands:
  assumes g: "valid_grid g" and a: "all_cells 1 g"
  shows "closed_islands g = {}"
  unfolding closed_islands_def all_water_land[OF g a] by blast

lemma closed_island_interior:
  assumes g: "valid_grid g" and R: "R \<in> closed_islands g"
  shows "R \<subseteq> interior_land g"
proof
  fix c assume c: "c \<in> R"
  from R have sub: "R \<subseteq> land g" "R \<inter> border g = {}"
    unfolding closed_islands_def using region_land[of g] by blast+
  obtain i j where ij: "c = (i, j)" by (cases c)
  from c sub have l: "(i, j) \<in> land g" and nb: "(i, j) \<notin> border g" unfolding ij by blast+
  from l land_cells[OF valid_grid_shaped[OF g]] have "(i, j) \<in> cells (rows g) (cols g)" by blast
  from cell_border_or_interior[OF this] nb have "i \<in> {1..rows g - 2} \<and> j \<in> {1..cols g - 2}"
    by blast
  with l show "c \<in> interior_land g" unfolding ij interior_land_def land_def by simp
qed

lemma finite_interior_land:
  assumes "valid_grid g"
  shows "finite (interior_land g)"
proof -
  have "interior_land g \<subseteq> land g" unfolding interior_land_def land_def by blast
  moreover have "finite (land g)"
    by (rule finite_subset[OF land_cells[OF valid_grid_shaped[OF assms]] finite_cells])
  ultimately show ?thesis by (rule finite_subset)
qed

lemma closed_islands_card_le:
  assumes g: "valid_grid g"
  shows "card (closed_islands g) \<le> card (interior_land g)"
proof -
  let ?pick = "\<lambda>R :: (int \<times> int) set. SOME x. x \<in> R"
  have pick: "?pick R \<in> R" if "R \<in> closed_islands g" for R
  proof -
    from that obtain c where "c \<in> land g" "R = region g c"
      unfolding closed_islands_def by blast
    then have "c \<in> R" using region_self by blast
    then show ?thesis by (rule someI)
  qed
  have "inj_on ?pick (closed_islands g)"
  proof (rule inj_onI)
    fix R S assume RS: "R \<in> closed_islands g" "S \<in> closed_islands g" "?pick R = ?pick S"
    from RS(1,2) obtain c d where cd: "R = region g c" "S = region g d"
      unfolding closed_islands_def by blast
    from pick[OF RS(1)] pick[OF RS(2)] RS(3) have "?pick R \<in> region g c" "?pick R \<in> region g d"
      unfolding cd by simp_all
    then have "region g c = region g d" using region_eq by blast
    then show "R = S" unfolding cd .
  qed
  moreover have "?pick ` closed_islands g \<subseteq> interior_land g"
    using pick closed_island_interior[OF g] by blast
  ultimately show ?thesis
    using finite_interior_land[OF g] by (rule card_inj_on_le)
qed

lemma for_each_Nil_body:
  "for_each (\<lambda>x. for_each (f x) []) xs s = Some s"
  by (induction xs) simp_all

lemma count_islands_empty:
  assumes "n \<le> 2 \<or> m \<le> 2"
  shows "count_islands n m s = Some (s, 0)"
proof (cases "n \<le> 2")
  case True
  then have "[1..n - 2] = []" by simp
  then show ?thesis by (simp add: count_islands_def)
next
  case False
  with assms have "[1..m - 2] = []" by simp
  then show ?thesis by (simp add: count_islands_def for_each_Nil_body)
qed

lemma mark_border_grid:
  assumes g: "valid_grid g"
  shows "\<exists>s1. mark_border (rows g) (cols g) (initial g) = Some s1 \<and> grid s1 = g"
  using mark_border_sound[OF g sound_initial[OF g]] unfolding sound_def by blast

subsection \<open>The marker holds land only\<close>

lemma dfs_marks_land:
  assumes g: "valid_grid g" and s: "grid s = g" "shaped (rows g) (cols g) (visited s)"
    and v: "marked (visited s) \<subseteq> land g"
  shows "\<exists>s'. dfs (rows g) (cols g) s i j = Some s' \<and> grid s' = g \<and>
           shaped (rows g) (cols g) (visited s') \<and> marked (visited s') \<subseteq> land g"
proof -
  from dfs_flood[of "rows g" "cols g" s i j] valid_grid_shaped[OF g] valid_grid_binary[OF g] s
  obtain s' where s': "dfs (rows g) (cols g) s i j = Some s'" "grid s' = g"
      "shaped (rows g) (cols g) (visited s')" "flood_post g (i, j) (visited s) (visited s')"
    by auto
  from s'(4) v have "marked (visited s') \<subseteq> land g" unfolding flood_post_def by blast
  with s' show ?thesis by blast
qed

lemma dfs_water:
  assumes "at (grid s) i j = Some 1"
  shows "dfs n m s i j = Some s"
  using assms by (simp add: dfs.simps[of n m s i j])

lemma unvisited_land_root:
  assumes "unvisited_land s i j = Some True"
  shows "(i, j) \<in> land (grid s)"
  using assms unfolding unvisited_land_def land_def
  by (auto split: option.splits if_splits)

subsection \<open>The example grids\<close>

lemma valid_ring3: "valid_grid ring3"
  by (simp add: valid_grid_def ring3_def)

lemma valid_land3: "valid_grid land3"
  by (simp add: valid_grid_def land3_def)

lemma valid_water3: "valid_grid water3"
  by (simp add: valid_grid_def water3_def)

lemma valid_two_rows: "valid_grid two_rows"
  by (simp add: valid_grid_def two_rows_def)

lemma run_ring3: "closedIsland ring3 = Some (ring3, 1)"
  unfolding ring3_def by code_simp

section \<open>The claims\<close>

text \<open>
  C1: on every valid grid (at least one row and one column, all rows of the same length,
  every cell 0 or 1) \<open>closedIsland\<close> returns the number of closed islands: the maximal
  4-directionally connected regions of land cells that contain no cell of row \<open>0\<close>, row
  \<open>n-1\<close>, column \<open>0\<close> or column \<open>m-1\<close> and have no path through land to such a cell.
\<close>

theorem closedIsland_counts_closed_islands:
  assumes "valid_grid g"
  shows "closedIsland g = Some (g, int (card {R. closed_island g R}))"
  unfolding closed_island_set by (rule closedIsland_islands[OF assms])

theorem closedIsland_counts_closed_islands_witness:
  "valid_grid ring3 \<and> closedIsland ring3 = Some (ring3, 1) \<and> card {R. closed_island ring3 R} = 1"
proof -
  have "int (card {R. closed_island ring3 R}) = 1"
    using closedIsland_counts_closed_islands[OF valid_ring3] run_ring3 by simp
  then have "card {R. closed_island ring3 R} = 1" by simp
  with valid_ring3 run_ring3 show ?thesis by blast
qed

text \<open>
  C2 states that the routine returns 0 on the 4x5 grid \<open>grid2\<close>. It does not: the land cell
  in row 1, column 2 has water on all four sides and lies in the interior, so it is a closed
  island of its own.
\<close>

theorem closedIsland_grid2_not_zero: "\<not> (\<exists>g'. closedIsland grid2 = Some (g', 0))"
proof -
  have "closedIsland grid2 = Some (grid2, 1)" unfolding grid2_def by code_simp
  then show ?thesis by simp
qed

text \<open>
  C2, amended: on the grid \<open>[[0,0,1,0,0],[0,1,0,1,0],[0,1,1,1,0],[0,0,0,0,0]]\<close> the routine
  returns 1.
\<close>

theorem closedIsland_grid2: "closedIsland grid2 = Some (grid2, 1)"
  unfolding grid2_def by code_simp

text \<open>
  C3: on every valid grid whose cells are all land the routine returns 0; in particular on
  the single-cell grid \<open>[[0]]\<close> and on the 3x3 grid of zeros (the witness).
\<close>

theorem closedIsland_all_land:
  assumes "valid_grid g" "all_cells 0 g"
  shows "closedIsland g = Some (g, 0)"
  using closedIsland_islands[OF assms(1)] all_land_no_islands[OF assms] by simp

theorem closedIsland_all_land_witness:
  "closedIsland [[0]] = Some ([[0]], 0) \<and> closedIsland land3 = Some (land3, 0)"
proof -
  have "valid_grid [[0]]" "all_cells 0 [[0]]" by (simp_all add: valid_grid_def all_cells_def)
  moreover have "all_cells 0 land3" by (simp add: all_cells_def land3_def)
  ultimately show ?thesis
    using closedIsland_all_land[of "[[0]]"] closedIsland_all_land[OF valid_land3] by blast
qed

text \<open>C4: on every valid grid whose cells are all water the routine returns 0.\<close>

theorem closedIsland_all_water:
  assumes "valid_grid g" "all_cells 1 g"
  shows "closedIsland g = Some (g, 0)"
  using closedIsland_islands[OF assms(1)] all_water_no_islands[OF assms] by simp

theorem closedIsland_all_water_witness: "closedIsland water3 = Some (water3, 0)"
proof -
  have "all_cells 1 water3" by (simp add: all_cells_def water3_def)
  then show ?thesis by (rule closedIsland_all_water[OF valid_water3])
qed

text \<open>C5: on the 5x8 example grid \<open>grid5\<close> the routine returns 2.\<close>

theorem closedIsland_grid5: "closedIsland grid5 = Some (grid5, 2)"
  unfolding grid5_def by code_simp

text \<open>
  C6: on every valid grid the result is non-negative and at most the number of interior
  land cells, the cells \<open>(i, j)\<close> with \<open>1 \<le> i \<le> n-2\<close>, \<open>1 \<le> j \<le> m-2\<close> and value 0.
\<close>

theorem closedIsland_bounded:
  assumes "valid_grid g"
  shows "\<exists>k. closedIsland g = Some (g, k) \<and> 0 \<le> k \<and> k \<le> int (card (interior_land g))"
  using closedIsland_islands[OF assms] closed_islands_card_le[OF assms] by simp

theorem closedIsland_bounded_witness:
  "closedIsland ring3 = Some (ring3, 1) \<and> 1 \<le> card (interior_land ring3)"
  using closedIsland_bounded[OF valid_ring3] run_ring3 by simp

text \<open>
  C7: on every valid grid the routine leaves the grid as it found it (the grid component of
  the final frame is the input), and so a second call on the grid the first call left
  returns the same result.
\<close>

theorem closedIsland_frame:
  assumes "valid_grid g"
  shows "\<exists>k. closedIsland g = Some (g, k) \<and>
           (closedIsland g \<bind> (\<lambda>(g', k'). closedIsland g')) = Some (g, k)"
  using closedIsland_islands[OF assms] by simp

theorem closedIsland_frame_witness:
  "\<exists>k. closedIsland ring3 = Some (ring3, k) \<and>
       (closedIsland ring3 \<bind> (\<lambda>(g', k'). closedIsland g')) = Some (ring3, k)"
  by (rule closedIsland_frame[OF valid_ring3])

text \<open>
  C8: on every valid grid the routine terminates and returns a result. The flood fill is a
  total function by its termination proof, whose measure is the number of unmarked entries
  of the marker; here: the routine returns, every flood fill started on a marker of the
  grid's dimensions returns, and marking a cell that passed the guard leaves strictly fewer
  unmarked entries.
\<close>

theorem closedIsland_total:
  assumes "valid_grid g"
  shows "(\<exists>g' k. closedIsland g = Some (g', k)) \<and>
    (\<forall>(s::frame) i j. grid s = g \<and> shaped (rows g) (cols g) (visited s) \<longrightarrow>
       (\<exists>s'. dfs (rows g) (cols g) s i j = Some s') \<and>
       (unvisited_land s i j = Some True \<longrightarrow>
          zeros (visited (mark s i j)) < zeros (visited s)))"
proof (intro conjI allI impI)
  show "\<exists>g' k. closedIsland g = Some (g', k)"
    using closedIsland_islands[OF assms] by simp
next
  fix s :: frame and i j
  assume s: "grid s = g \<and> shaped (rows g) (cols g) (visited s)"
  with dfs_flood[of "rows g" "cols g" s i j] valid_grid_shaped[OF assms] valid_grid_binary[OF assms]
  show "\<exists>s'. dfs (rows g) (cols g) s i j = Some s'" by auto
  assume "unvisited_land s i j = Some True"
  then have "at (visited s) i j = Some 0"
    unfolding unvisited_land_def by (auto split: option.splits if_splits)
  from zeros_put[OF this] show "zeros (visited (mark s i j)) < zeros (visited s)"
    by (simp add: mark_def)
qed

theorem closedIsland_total_witness: "\<exists>g' k. closedIsland ring3 = Some (g', k)"
  using closedIsland_total[OF valid_ring3] by blast

text \<open>
  C9: on every valid grid with at most two rows or at most two columns the routine returns
  0 whatever the cells hold, because the counting pass ranges over rows \<open>1..n-2\<close> and
  columns \<open>1..m-2\<close>, and one of the two ranges is empty: the pass returns the frame it was
  given with the counter at 0.
\<close>

theorem closedIsland_thin:
  assumes "valid_grid g" "rows g \<le> 2 \<or> cols g \<le> 2"
  shows "closedIsland g = Some (g, 0) \<and> (\<forall>s. count_islands (rows g) (cols g) s = Some (s, 0))"
proof -
  from mark_border_grid[OF assms(1)] obtain s1 where
    s1: "mark_border (rows g) (cols g) (initial g) = Some s1" "grid s1 = g"
    by blast
  have c: "count_islands (rows g) (cols g) s = Some (s, 0)" for s
    by (rule count_islands_empty[OF assms(2)])
  have "closedIsland g = Some (g, 0)"
    unfolding closedIsland_unfold[OF assms(1)] using s1 c[of s1] by simp
  with c show ?thesis by blast
qed

theorem closedIsland_thin_witness: "closedIsland two_rows = Some (two_rows, 0)"
proof -
  have "rows two_rows \<le> 2 \<or> cols two_rows \<le> 2" by (simp add: rows_def two_rows_def)
  with closedIsland_thin[OF valid_two_rows] show ?thesis by blast
qed

text \<open>
  C10: on a valid grid the marker is nonzero only at land cells, throughout. The invariant
  holds of the fresh marker; every flood fill started on a frame that satisfies it returns
  a frame that satisfies it, with the grid untouched; a flood fill on a water cell returns
  the frame unchanged, before any marking; a cell that passes the guard of a call site is
  land, and marking it keeps the invariant; and the invariant holds after the border pass
  and after the counting pass.
\<close>

theorem visited_marks_only_land:
  assumes "valid_grid g"
  shows "marked (visited (initial g)) \<subseteq> land g \<and>
    (\<forall>(s::frame) i j. grid s = g \<and> shaped (rows g) (cols g) (visited s) \<and> marked (visited s) \<subseteq> land g \<longrightarrow>
       (\<exists>s'. dfs (rows g) (cols g) s i j = Some s' \<and> grid s' = g \<and>
             shaped (rows g) (cols g) (visited s') \<and> marked (visited s') \<subseteq> land g) \<and>
       (at g i j = Some 1 \<longrightarrow> dfs (rows g) (cols g) s i j = Some s) \<and>
       (unvisited_land s i j = Some True \<longrightarrow>
          (i, j) \<in> land g \<and> marked (visited (mark s i j)) \<subseteq> land g)) \<and>
    (\<exists>s1 s2 k. mark_border (rows g) (cols g) (initial g) = Some s1 \<and>
       marked (visited s1) \<subseteq> land g \<and>
       count_islands (rows g) (cols g) s1 = Some (s2, k) \<and>
       marked (visited s2) \<subseteq> land g \<and> closedIsland g = Some (grid s2, k))"
proof (intro conjI allI impI)
  show "marked (visited (initial g)) \<subseteq> land g" unfolding marked_initial by blast
next
  fix s :: frame and i j
  assume s: "grid s = g \<and> shaped (rows g) (cols g) (visited s) \<and> marked (visited s) \<subseteq> land g"
  then show "\<exists>s'. dfs (rows g) (cols g) s i j = Some s' \<and> grid s' = g \<and>
             shaped (rows g) (cols g) (visited s') \<and> marked (visited s') \<subseteq> land g"
    using dfs_marks_land[OF assms, of s i j] by blast
  {
    assume "at g i j = Some 1"
    with s show "dfs (rows g) (cols g) s i j = Some s" using dfs_water[of s i j] by simp
  }
  {
    assume u: "unvisited_land s i j = Some True"
    with s show l: "(i, j) \<in> land g" using unvisited_land_root[of s i j] by simp
    from u have "at (visited s) i j \<noteq> None"
      unfolding unvisited_land_def by (auto split: option.splits if_splits)
    then have "marked (visited (mark s i j)) = insert (i, j) (marked (visited s))"
      by (simp add: mark_def marked_put)
    with l s show "marked (visited (mark s i j)) \<subseteq> land g" by simp
  }
next
  from mark_border_sound[OF assms sound_initial[OF assms]] obtain s1 where
    s1: "mark_border (rows g) (cols g) (initial g) = Some s1" "sound (rows g) (cols g) g s1"
      "marked (visited s1) = \<Union>(region g ` (border g \<inter> cells (rows g) (cols g)))"
    unfolding marked_initial by auto
  have t1: "tally g (s1, 0)" by (rule border_marked_tally[OF assms s1(2,3)])
  from count_islands_tally[OF assms t1] obtain s2 k where
    s2: "count_islands (rows g) (cols g) s1 = Some (s2, k)" "tally g (s2, k)"
    by auto
  from s2(2) have "sound (rows g) (cols g) g s2" unfolding tally_def by simp
  with s1(2) have "marked (visited s1) \<subseteq> land g" "marked (visited s2) \<subseteq> land g"
    unfolding sound_def closed_under_def by blast+
  moreover have "closedIsland g = Some (grid s2, k)"
    unfolding closedIsland_unfold[OF assms] using s1(1) s2(1) by simp
  ultimately show "\<exists>s1 s2 k. mark_border (rows g) (cols g) (initial g) = Some s1 \<and>
       marked (visited s1) \<subseteq> land g \<and>
       count_islands (rows g) (cols g) s1 = Some (s2, k) \<and>
       marked (visited s2) \<subseteq> land g \<and> closedIsland g = Some (grid s2, k)"
    using s1(1) s2(1) by blast
qed

theorem visited_marks_only_land_witness:
  "marked (visited (initial ring3)) \<subseteq> land ring3 \<and>
   (\<exists>s1 s2 k. mark_border (rows ring3) (cols ring3) (initial ring3) = Some s1 \<and>
       marked (visited s1) \<subseteq> land ring3 \<and>
       count_islands (rows ring3) (cols ring3) s1 = Some (s2, k) \<and>
       marked (visited s2) \<subseteq> land ring3 \<and> closedIsland ring3 = Some (grid s2, k))"
  using visited_marks_only_land[OF valid_ring3] by blast

end
